theory Spec2Isabelle
  imports Main "HOL-Library.Sublist"
begin

section \<open>KeyManager: key lifecycle over scoped preferences storage\<close>

text \<open>
  The class \<open>KeyManager\<close> keeps four nullable in-memory fields and talks to two
  collaborators: the cipher module (\<open>generateKeyPair\<close>, \<open>deriveSharedSecret\<close>,
  \<open>exportKeyToHexString\<close>, \<open>importKeyFromHexString\<close>) and a
  \<open>ScopedPreferencesStorage\<close>, which forwards to the Capacitor \<open>Preferences\<close> plugin
  under a scoped key. Neither the cipher module nor \<open>Preferences\<close> nor the inherited
  \<open>scopedKey\<close> is part of the sources, so they are parameters of the model, collected
  in the record \<open>env\<close>. \<open>CryptoKey\<close> is an opaque handle: the type variable \<open>'k\<close>.

  Every asynchronous call is modelled as a state transformer that returns either an
  error (the promise rejects, the \<open>await\<close> throws) or a value, together with the
  state reached: fields assigned before a throw stay assigned. One flow of control at
  a time operates on a manager; the operations of two callers are not interleaved.
\<close>

datatype key_type = Public | Private

record StorageItem =
  storageKey :: string
  keyType :: key_type

definition OWN_PRIVATE_KEY :: StorageItem where
  "OWN_PRIVATE_KEY = \<lparr>storageKey = ''ownPrivateKey'', keyType = Private\<rparr>"

definition OWN_PUBLIC_KEY :: StorageItem where
  "OWN_PUBLIC_KEY = \<lparr>storageKey = ''ownPublicKey'', keyType = Public\<rparr>"

definition PEER_PUBLIC_KEY :: StorageItem where
  "PEER_PUBLIC_KEY = \<lparr>storageKey = ''peerPublicKey'', keyType = Public\<rparr>"

datatype error =
    StorageUnavailable
  | KeyGenerationFailure
  | KeyExportFailure
  | KeyImportFailure
  | KeyDerivationFailure

text \<open>A call issued to the \<open>Preferences\<close> plugin, with the scoped key it was given.\<close>

datatype pref_call =
    PrefGet string
  | PrefSet string string
  | PrefRemove string

text \<open>
  The collaborators. \<open>cipher_generateKeyPair n\<close> is the pair (private key, public key)
  that the \<open>n\<close>-th call of the cipher's \<open>generateKeyPair\<close> resolves to, or \<open>None\<close>
  when that call rejects; the three other cipher functions are functions of their
  arguments, \<open>None\<close> when they reject. \<open>prefs_fault n\<close> tells whether the \<open>n\<close>-th call
  issued to \<open>Preferences\<close> rejects (such a call leaves the store as it was).
\<close>

record 'k env =
  cipher_generateKeyPair :: "nat \<Rightarrow> ('k \<times> 'k) option"
  cipher_deriveSharedSecret :: "'k \<Rightarrow> 'k \<Rightarrow> 'k option"
  exportKeyToHexString :: "key_type \<Rightarrow> 'k \<Rightarrow> string option"
  importKeyFromHexString :: "key_type \<Rightarrow> string \<Rightarrow> 'k option"
  prefs_fault :: "nat \<Rightarrow> bool"
  scopedKey :: "string \<Rightarrow> string"

text \<open>
  The four fields of a \<open>KeyManager\<close>, and the world it acts on: the contents of the
  \<open>Preferences\<close> store, the calls issued to it so far (newest first) and the number
  of key pairs requested from the cipher so far.
\<close>

record 'k KeyManager =
  ownPrivateKey :: "'k option"
  ownPublicKey :: "'k option"
  peerPublicKey :: "'k option"
  sharedSecret :: "'k option"
  prefs :: "string \<rightharpoonup> string"
  pref_calls :: "pref_call list"
  keygen_calls :: nat

type_synonym ('k, 'a) async = "'k KeyManager \<Rightarrow> (error + 'a) \<times> 'k KeyManager"

definition resolve :: "'a \<Rightarrow> ('k, 'a) async" where
  "resolve a s = (Inr a, s)"

definition reject :: "error \<Rightarrow> ('k, 'a) async" where
  "reject e s = (Inl e, s)"

text \<open>\<open>await m\<close> followed by \<open>f\<close>: a rejection of \<open>m\<close> skips \<open>f\<close>.\<close>

definition await :: "('k, 'a) async \<Rightarrow> ('a \<Rightarrow> ('k, 'b) async) \<Rightarrow> ('k, 'b) async" where
  "await m f s = (case m s of (Inl e, s1) \<Rightarrow> (Inl e, s1) | (Inr a, s1) \<Rightarrow> f a s1)"

subsection \<open>Preferences and ScopedPreferencesStorage\<close>

definition Preferences_get :: "'k env \<Rightarrow> string \<Rightarrow> ('k, string option) async" where
  "Preferences_get env key s =
     (let s1 = s\<lparr>pref_calls := PrefGet key # pref_calls s\<rparr>
      in if prefs_fault env (length (pref_calls s)) then (Inl StorageUnavailable, s1)
         else (Inr (prefs s key), s1))"

definition Preferences_set :: "'k env \<Rightarrow> string \<Rightarrow> string \<Rightarrow> ('k, unit) async" where
  "Preferences_set env key v s =
     (let s1 = s\<lparr>pref_calls := PrefSet key v # pref_calls s\<rparr>
      in if prefs_fault env (length (pref_calls s)) then (Inl StorageUnavailable, s1)
         else (Inr (), s1\<lparr>prefs := (prefs s)(key \<mapsto> v)\<rparr>))"

definition Preferences_remove :: "'k env \<Rightarrow> string \<Rightarrow> ('k, unit) async" where
  "Preferences_remove env key s =
     (let s1 = s\<lparr>pref_calls := PrefRemove key # pref_calls s\<rparr>
      in if prefs_fault env (length (pref_calls s)) then (Inl StorageUnavailable, s1)
         else (Inr (), s1\<lparr>prefs := (prefs s)(key := None)\<rparr>))"

definition setItem :: "'k env \<Rightarrow> string \<Rightarrow> string \<Rightarrow> ('k, unit) async" where
  "setItem env key v = Preferences_set env (scopedKey env key) v"

definition getItem :: "'k env \<Rightarrow> string \<Rightarrow> ('k, string option) async" where
  "getItem env key = Preferences_get env (scopedKey env key)"

definition removeItem :: "'k env \<Rightarrow> string \<Rightarrow> ('k, unit) async" where
  "removeItem env key = Preferences_remove env (scopedKey env key)"

subsection \<open>The storage methods of KeyManager\<close>

text \<open>\<open>if (!key) return null\<close>: a missing value and the empty string both give \<open>null\<close>.\<close>

definition loadKey :: "'k env \<Rightarrow> StorageItem \<Rightarrow> ('k, 'k option) async" where
  "loadKey env item =
     await (getItem env (storageKey item)) (\<lambda>key.
       case key of
         None \<Rightarrow> resolve None
       | Some hex \<Rightarrow>
           if hex = [] then resolve None
           else (case importKeyFromHexString env (keyType item) hex of
                   None \<Rightarrow> reject KeyImportFailure
                 | Some k \<Rightarrow> resolve (Some k)))"

definition storeKey :: "'k env \<Rightarrow> StorageItem \<Rightarrow> 'k \<Rightarrow> ('k, unit) async" where
  "storeKey env item key =
     (case exportKeyToHexString env (keyType item) key of
        None \<Rightarrow> reject KeyExportFailure
      | Some hexString \<Rightarrow> setItem env (storageKey item) hexString)"

subsection \<open>Key generation and loading\<close>

definition generateKeyPair :: "'k env \<Rightarrow> ('k, unit) async" where
  "generateKeyPair env s =
     (let s1 = s\<lparr>keygen_calls := Suc (keygen_calls s)\<rparr>
      in case cipher_generateKeyPair env (keygen_calls s) of
           None \<Rightarrow> (Inl KeyGenerationFailure, s1)
         | Some (privateKey, publicKey) \<Rightarrow>
             await (storeKey env OWN_PRIVATE_KEY privateKey)
               (\<lambda>_. storeKey env OWN_PUBLIC_KEY publicKey)
               (s1\<lparr>ownPrivateKey := Some privateKey, ownPublicKey := Some publicKey\<rparr>))"

text \<open>
  \<open>loadKeysIfNeeded\<close> is five statements in a row; each is a definition of its own
  here, in the order of the method body, and \<open>loadKeysIfNeeded\<close> awaits them in turn.
\<close>

definition loadOwnPrivateKeyIfNull :: "'k env \<Rightarrow> ('k, unit) async" where
  "loadOwnPrivateKeyIfNull env s =
     (if ownPrivateKey s = None
      then await (loadKey env OWN_PRIVATE_KEY) (\<lambda>k s1. (Inr (), s1\<lparr>ownPrivateKey := k\<rparr>)) s
      else (Inr (), s))"

definition loadOwnPublicKeyIfNull :: "'k env \<Rightarrow> ('k, unit) async" where
  "loadOwnPublicKeyIfNull env s =
     (if ownPublicKey s = None
      then await (loadKey env OWN_PUBLIC_KEY) (\<lambda>k s1. (Inr (), s1\<lparr>ownPublicKey := k\<rparr>)) s
      else (Inr (), s))"

definition generateKeyPairIfIncomplete :: "'k env \<Rightarrow> ('k, unit) async" where
  "generateKeyPairIfIncomplete env s =
     (if ownPrivateKey s = None \<or> ownPublicKey s = None
      then generateKeyPair env s
      else (Inr (), s))"

definition loadPeerPublicKeyIfNull :: "'k env \<Rightarrow> ('k, unit) async" where
  "loadPeerPublicKeyIfNull env s =
     (if peerPublicKey s = None
      then await (loadKey env PEER_PUBLIC_KEY) (\<lambda>k s1. (Inr (), s1\<lparr>peerPublicKey := k\<rparr>)) s
      else (Inr (), s))"

definition deriveSharedSecretIfNull :: "'k env \<Rightarrow> ('k, unit) async" where
  "deriveSharedSecretIfNull env s =
     (if sharedSecret s = None
      then (case (ownPrivateKey s, peerPublicKey s) of
              (Some priv, Some peer) \<Rightarrow>
                (case cipher_deriveSharedSecret env priv peer of
                   None \<Rightarrow> (Inl KeyDerivationFailure, s)
                 | Some secret \<Rightarrow> (Inr (), s\<lparr>sharedSecret := Some secret\<rparr>))
            | _ \<Rightarrow> (Inr (), s))
      else (Inr (), s))"

definition loadKeysIfNeeded :: "'k env \<Rightarrow> ('k, unit) async" where
  "loadKeysIfNeeded env =
     await (loadOwnPrivateKeyIfNull env) (\<lambda>_.
     await (loadOwnPublicKeyIfNull env) (\<lambda>_.
     await (generateKeyPairIfIncomplete env) (\<lambda>_.
     await (loadPeerPublicKeyIfNull env) (\<lambda>_.
     deriveSharedSecretIfNull env))))"

subsection \<open>The public operations\<close>

definition getOwnPublicKey :: "'k env \<Rightarrow> ('k, 'k option) async" where
  "getOwnPublicKey env = await (loadKeysIfNeeded env) (\<lambda>_ s. (Inr (ownPublicKey s), s))"

definition getSharedSecret :: "'k env \<Rightarrow> ('k, 'k option) async" where
  "getSharedSecret env = await (loadKeysIfNeeded env) (\<lambda>_ s. (Inr (sharedSecret s), s))"

definition setPeerPublicKey :: "'k env \<Rightarrow> 'k \<Rightarrow> ('k, unit) async" where
  "setPeerPublicKey env key s =
     await (storeKey env PEER_PUBLIC_KEY key) (\<lambda>_. loadKeysIfNeeded env)
       (s\<lparr>sharedSecret := None, peerPublicKey := Some key\<rparr>)"

text \<open>
  \<open>Promise.all\<close> over promises that are all created before it is called: it rejects
  as soon as one of them does, and has no way to stop the others.
\<close>

fun Promise_all :: "(error + unit) list \<Rightarrow> error + unit" where
  "Promise_all [] = Inr ()"
| "Promise_all (Inl e # rs) = Inl e"
| "Promise_all (Inr _ # rs) = Promise_all rs"

definition clear :: "'k env \<Rightarrow> ('k, unit) async" where
  "clear env s =
     (let s0 = s\<lparr>ownPrivateKey := None, ownPublicKey := None,
                  peerPublicKey := None, sharedSecret := None\<rparr>;
          (r1, s1) = removeItem env (storageKey OWN_PUBLIC_KEY) s0;
          (r2, s2) = removeItem env (storageKey OWN_PRIVATE_KEY) s1;
          (r3, s3) = removeItem env (storageKey PEER_PUBLIC_KEY) s2
      in (Promise_all [r1, r2, r3], s3))"

subsection \<open>Calls in sequence, and the vocabulary of the properties\<close>

datatype 'k op =
    GetOwnPublicKey
  | GetSharedSecret
  | SetPeerPublicKey 'k
  | Clear

datatype 'k reply = Key "'k option" | Void

definition as_key :: "(error + 'k option) \<times> 's \<Rightarrow> (error + 'k reply) \<times> 's" where
  "as_key r = (map_sum id Key (fst r), snd r)"

definition as_void :: "(error + unit) \<times> 's \<Rightarrow> (error + 'k reply) \<times> 's" where
  "as_void r = (map_sum id (\<lambda>_. Void) (fst r), snd r)"

fun call :: "'k env \<Rightarrow> 'k op \<Rightarrow> ('k, 'k reply) async" where
  "call env GetOwnPublicKey s = as_key (getOwnPublicKey env s)"
| "call env GetSharedSecret s = as_key (getSharedSecret env s)"
| "call env (SetPeerPublicKey key) s = as_void (setPeerPublicKey env key s)"
| "call env Clear s = as_void (clear env s)"

text \<open>
  The state after a list of calls made one after the other; a call that rejects
  leaves the manager in the state it had reached, and the next call goes on from there.
\<close>

fun after_calls :: "'k env \<Rightarrow> 'k op list \<Rightarrow> 'k KeyManager \<Rightarrow> 'k KeyManager" where
  "after_calls env [] s = s"
| "after_calls env (c # cs) s = after_calls env cs (snd (call env c s))"

text \<open>A manager as its constructor leaves it: the four fields are \<open>null\<close>.\<close>

definition constructed :: "'k KeyManager \<Rightarrow> bool" where
  "constructed s \<longleftrightarrow>
     ownPrivateKey s = None \<and> ownPublicKey s = None \<and>
     peerPublicKey s = None \<and> sharedSecret s = None"

definition reachable :: "'k env \<Rightarrow> 'k KeyManager \<Rightarrow> bool" where
  "reachable env s \<longleftrightarrow> (\<exists>s0 cs. constructed s0 \<and> s = after_calls env cs s0)"

text \<open>What \<open>loadKey\<close> finds for an item when the read succeeds, and an item with no value.\<close>

definition stored :: "'k env \<Rightarrow> StorageItem \<Rightarrow> 'k KeyManager \<Rightarrow> 'k option" where
  "stored env item s =
     (case prefs s (scopedKey env (storageKey item)) of
        None \<Rightarrow> None
      | Some hex \<Rightarrow> if hex = [] then None else importKeyFromHexString env (keyType item) hex)"

definition absent :: "'k env \<Rightarrow> StorageItem \<Rightarrow> 'k KeyManager \<Rightarrow> bool" where
  "absent env item s \<longleftrightarrow>
     (case prefs s (scopedKey env (storageKey item)) of None \<Rightarrow> True | Some hex \<Rightarrow> hex = [])"

text \<open>
  The cached secret is a memo of \<open>deriveSharedSecret\<close> applied to the own private
  key and the peer public key that the manager holds.
\<close>

definition secret_coherent :: "'k env \<Rightarrow> 'k KeyManager \<Rightarrow> bool" where
  "secret_coherent env s \<longleftrightarrow>
     (case sharedSecret s of
        None \<Rightarrow> True
      | Some d \<Rightarrow>
          (case (ownPrivateKey s, ownPublicKey s, peerPublicKey s) of
             (Some p, Some q, Some k) \<Rightarrow> cipher_deriveSharedSecret env p k = Some d
           | _ \<Rightarrow> False))"

definition slots_distinct :: "'k env \<Rightarrow> bool" where
  "slots_distinct env \<longleftrightarrow>
     distinct [scopedKey env (storageKey OWN_PRIVATE_KEY),
               scopedKey env (storageKey OWN_PUBLIC_KEY),
               scopedKey env (storageKey PEER_PUBLIC_KEY)]"

definition generates_fresh_keys :: "'k env \<Rightarrow> bool" where
  "generates_fresh_keys env \<longleftrightarrow>
     (\<forall>i j p q p' q'. i \<noteq> j \<longrightarrow> cipher_generateKeyPair env i = Some (p, q) \<longrightarrow>
        cipher_generateKeyPair env j = Some (p', q') \<longrightarrow> q \<noteq> q')"

definition ensures :: "('s \<Rightarrow> bool) \<Rightarrow> ('s \<Rightarrow> (error + 'a) \<times> 's) \<Rightarrow> ('s \<Rightarrow> bool) \<Rightarrow> ('s \<Rightarrow> bool) \<Rightarrow> bool" where
  "ensures P m Q F \<longleftrightarrow>
     (\<forall>s a s'. P s \<longrightarrow> m s = (Inr a, s') \<longrightarrow> Q s') \<and>
     (\<forall>s e s'. P s \<longrightarrow> m s = (Inl e, s') \<longrightarrow> F s')"

definition own_pair :: "'k KeyManager \<Rightarrow> bool" where
  "own_pair s \<longleftrightarrow> ownPrivateKey s \<noteq> None \<and> ownPublicKey s \<noteq> None"

definition new_manager :: "(string \<rightharpoonup> string) \<Rightarrow> 'k KeyManager" where
  "new_manager store = \<lparr>ownPrivateKey = None, ownPublicKey = None, peerPublicKey = None,
     sharedSecret = None, prefs = store, pref_calls = [], keygen_calls = 0\<rparr>"

definition demo_env :: "nat env" where
  "demo_env = \<lparr>cipher_generateKeyPair = (\<lambda>n. Some (2 * n, 2 * n + 1)),
     cipher_deriveSharedSecret = (\<lambda>p q. Some (p + q)),
     exportKeyToHexString = (\<lambda>t k. Some (replicate (Suc k) (CHR ''f''))),
     importKeyFromHexString = (\<lambda>t hex. Some (length hex - 1)),
     prefs_fault = (\<lambda>n. False),
     scopedKey = (\<lambda>key. ''w:'' @ key)\<rparr>"

definition needs_keypair :: "'k env \<Rightarrow> 'k KeyManager \<Rightarrow> bool" where
  "needs_keypair env s \<longleftrightarrow>
     (ownPrivateKey s = None \<and> absent env OWN_PRIVATE_KEY s) \<or>
     (ownPublicKey s = None \<and> absent env OWN_PUBLIC_KEY s)"

definition regenerated :: "'k env \<Rightarrow> 'k KeyManager \<Rightarrow> 'k KeyManager \<Rightarrow> 'k \<Rightarrow> 'k \<Rightarrow> bool" where
  "regenerated env s s' p q \<longleftrightarrow>
     cipher_generateKeyPair env (keygen_calls s) = Some (p, q) \<and>
     keygen_calls s' = Suc (keygen_calls s) \<and>
     ownPrivateKey s' = Some p \<and> ownPublicKey s' = Some q \<and>
     exportKeyToHexString env Public q \<noteq> None \<and>
     prefs s' (scopedKey env (storageKey OWN_PUBLIC_KEY)) = exportKeyToHexString env Public q \<and>
     (scopedKey env (storageKey OWN_PRIVATE_KEY) \<noteq> scopedKey env (storageKey OWN_PUBLIC_KEY) \<longrightarrow>
        exportKeyToHexString env Private p \<noteq> None \<and>
        prefs s' (scopedKey env (storageKey OWN_PRIVATE_KEY)) = exportKeyToHexString env Private p)"

text \<open>
  What an operation may write to storage: the export of a key that the cipher's
  \<open>generateKeyPair\<close> returned, under the slot of its half, or the export of the key
  given to \<open>setPeerPublicKey\<close>, under the peer slot. \<open>log_extends L W cs\<close>: the log
  \<open>cs\<close> is \<open>L\<close> with newer calls in front, whose writes all satisfy \<open>W\<close>.
\<close>

definition written_by :: "'k env \<Rightarrow> 'k op \<Rightarrow> string \<Rightarrow> string \<Rightarrow> bool" where
  "written_by env c slot hex \<longleftrightarrow>
     (\<exists>n p q. cipher_generateKeyPair env n = Some (p, q) \<and>
        (slot = scopedKey env (storageKey OWN_PRIVATE_KEY) \<and>
           exportKeyToHexString env Private p = Some hex \<or>
         slot = scopedKey env (storageKey OWN_PUBLIC_KEY) \<and>
           exportKeyToHexString env Public q = Some hex)) \<or>
     (\<exists>key. c = SetPeerPublicKey key \<and> slot = scopedKey env (storageKey PEER_PUBLIC_KEY) \<and>
        exportKeyToHexString env Public key = Some hex)"

definition log_extends :: "pref_call list \<Rightarrow> (string \<Rightarrow> string \<Rightarrow> bool) \<Rightarrow> pref_call list \<Rightarrow> bool" where
  "log_extends L W cs \<longleftrightarrow>
     (\<exists>new. cs = new @ L \<and> (\<forall>slot hex. PrefSet slot hex \<in> set new \<longrightarrow> W slot hex))"

text \<open>No peer key in memory or in storage, and no secret.\<close>

definition no_peer :: "'k env \<Rightarrow> 'k KeyManager \<Rightarrow> bool" where
  "no_peer env s \<longleftrightarrow>
     peerPublicKey s = None \<and> sharedSecret s = None \<and> absent env PEER_PUBLIC_KEY s"

section \<open>postRequestToWallet: the round trip through the embedded browser\<close>

text \<open>
  \<open>postRequestToWallet\<close> creates a promise, arms a timer, registers an
  \<open>appUrlOpen\<close> listener with \<open>App\<close> and a \<open>browserClosed\<close> listener with
  \<open>InAppBrowser\<close>, opens the wallet's URL in the embedded browser, and leaves three
  callbacks behind that settle the promise. The model keeps the three variables of
  the closure (\<open>listener\<close>, \<open>browserClosedListener\<close>, \<open>timeoutId\<close>) together with
  what the host holds for this call: the registered listeners, the armed timer, whether
  the browser is open, the state of the promise, and the calls made to the host
  (newest first).

  The Capacitor plugins, the URL class and the codec of \<open>./utils/encoding\<close> are not
  part of the sources. They are parameters, the record \<open>host\<close>: whether each plugin
  call resolves, what \<open>new URL(scheme)\<close> with the encoded request gives (\<open>None\<close> when
  it throws) and what decoding the search parameters of a returned URL gives
  (\<open>None\<close> when \<open>new URL\<close> or \<open>decodeResponseURLParams\<close> throws).

  A callback, and the \<open>start\<close> function, run here to their end before the next
  event is delivered: the host calls they await are taken to have completed by then.
  \<open>remove()\<close> on a listener handle and \<open>clearTimeout\<close> take effect at once, and
  are harmless when repeated.
\<close>

datatype wallet_kind = Web | Native | OtherKind

record Wallet =
  wallet_kind :: wallet_kind
  scheme :: string

datatype rpc_error =
    UserRejectedRequest
  | InvalidURL
  | NativeWalletNotSupported
  | UnsupportedWalletType

datatype 'r outcome = Resolved 'r | Rejected rpc_error

datatype listener_handle = AppUrlOpenHandle | BrowserClosedHandle

datatype timer_handle = TimeoutHandle

datatype 'r host_call =
    SetTimeout nat
  | AddAppUrlOpenListener
  | AddBrowserClosedListener
  | OpenInWebView string
  | Remove listener_handle
  | ClearTimeout
  | CloseBrowser
  | CallResolve 'r
  | CallReject rpc_error

record ('q, 'r) host =
  app_addListener_ok :: bool
  browser_addListener_ok :: bool
  openInWebView_ok :: bool
  close_ok :: bool
  requestUrl :: "string \<Rightarrow> 'q \<Rightarrow> string option"
  decodeResponse :: "string \<Rightarrow> 'r option"

record 'r attempt =
  listener :: "listener_handle option"
  browserClosedListener :: "listener_handle option"
  timeoutId :: "timer_handle option"
  registered :: "listener_handle set"
  timer :: "nat option"
  browser_open :: bool
  promise :: "'r outcome option"
  host_calls :: "'r host_call list"

definition new_attempt :: "'r attempt" where
  "new_attempt = \<lparr>listener = None, browserClosedListener = None, timeoutId = None,
     registered = {}, timer = None, browser_open = False, promise = None, host_calls = []\<rparr>"

text \<open>\<open>resolve\<close> and \<open>reject\<close> of the promise: only the first call settles it.\<close>

definition settle :: "'r outcome \<Rightarrow> 'r attempt \<Rightarrow> 'r attempt" where
  "settle out s = s\<lparr>promise := (case promise s of None \<Rightarrow> Some out | Some first \<Rightarrow> Some first)\<rparr>"

definition call_resolve :: "'r \<Rightarrow> 'r attempt \<Rightarrow> 'r attempt" where
  "call_resolve response s = settle (Resolved response) (s\<lparr>host_calls := CallResolve response # host_calls s\<rparr>)"

definition call_reject :: "rpc_error \<Rightarrow> 'r attempt \<Rightarrow> 'r attempt" where
  "call_reject e s = settle (Rejected e) (s\<lparr>host_calls := CallReject e # host_calls s\<rparr>)"

definition remove_listener :: "listener_handle \<Rightarrow> 'r attempt \<Rightarrow> 'r attempt" where
  "remove_listener h s = s\<lparr>registered := registered s - {h}, host_calls := Remove h # host_calls s\<rparr>"

text \<open>\<open>if (listener) listener.remove()\<close>, for either variable.\<close>

definition remove_if_set :: "listener_handle option \<Rightarrow> 'r attempt \<Rightarrow> 'r attempt" where
  "remove_if_set v s = (case v of None \<Rightarrow> s | Some h \<Rightarrow> remove_listener h s)"

text \<open>\<open>if (timeoutId) clearTimeout(timeoutId)\<close>.\<close>

definition clearTimeout_if_set :: "'r attempt \<Rightarrow> 'r attempt" where
  "clearTimeout_if_set s =
     (case timeoutId s of
        None \<Rightarrow> s
      | Some _ \<Rightarrow> s\<lparr>timer := None, host_calls := ClearTimeout # host_calls s\<rparr>)"

definition remove_both :: "'r attempt \<Rightarrow> 'r attempt" where
  "remove_both s = remove_if_set (browserClosedListener s) (remove_if_set (listener s) s)"

text \<open>The three guarded statements that three of the four clean-ups share.\<close>

definition teardown :: "'r attempt \<Rightarrow> 'r attempt" where
  "teardown s = clearTimeout_if_set (remove_both s)"

text \<open>
  \<open>await InAppBrowser.close()\<close>: the flag tells whether the call resolved; when it
  rejects, the callback that awaited it stops there.
\<close>

definition InAppBrowser_close :: "('q, 'r) host \<Rightarrow> 'r attempt \<Rightarrow> bool \<times> 'r attempt" where
  "InAppBrowser_close h s =
     (let s1 = s\<lparr>host_calls := CloseBrowser # host_calls s\<rparr>
      in if close_ok h then (True, s1\<lparr>browser_open := False\<rparr>) else (False, s1))"

subsection \<open>The three callbacks\<close>

definition appUrlOpen_callback :: "('q, 'r) host \<Rightarrow> string \<Rightarrow> string \<Rightarrow> 'r attempt \<Rightarrow> 'r attempt" where
  "appUrlOpen_callback h appCustomScheme url s =
     (if prefix appCustomScheme url
      then (case InAppBrowser_close h (teardown s) of
              (False, s1) \<Rightarrow> s1
            | (True, s1) \<Rightarrow>
                (case decodeResponse h url of
                   Some response \<Rightarrow> call_resolve response s1
                 | None \<Rightarrow> call_reject UserRejectedRequest s1))
      else s)"

definition browserClosed_callback :: "'r attempt \<Rightarrow> 'r attempt" where
  "browserClosed_callback s = call_reject UserRejectedRequest (teardown s)"

definition timeout_callback :: "('q, 'r) host \<Rightarrow> 'r attempt \<Rightarrow> 'r attempt" where
  "timeout_callback h s =
     (case InAppBrowser_close h (remove_both s) of
        (False, s1) \<Rightarrow> s1
      | (True, s1) \<Rightarrow> call_reject UserRejectedRequest s1)"

subsection \<open>Launching\<close>

definition timeout_ms :: nat where
  "timeout_ms = 5 * 60 * 1000"

definition setTimeout :: "nat \<Rightarrow> 'r attempt \<Rightarrow> 'r attempt" where
  "setTimeout ms s = s\<lparr>timeoutId := Some TimeoutHandle, timer := Some ms,
     host_calls := SetTimeout ms # host_calls s\<rparr>"

text \<open>\<open>setupListener\<close>: the flag tells whether both registrations resolved.\<close>

definition setupListener :: "('q, 'r) host \<Rightarrow> 'r attempt \<Rightarrow> bool \<times> 'r attempt" where
  "setupListener h s =
     (let s1 = s\<lparr>host_calls := AddAppUrlOpenListener # host_calls s\<rparr>
      in if \<not> app_addListener_ok h then (False, s1)
         else
           (let s2 = s1\<lparr>listener := Some AppUrlOpenHandle,
                         registered := insert AppUrlOpenHandle (registered s1),
                         host_calls := AddBrowserClosedListener # host_calls s1\<rparr>
            in if \<not> browser_addListener_ok h then (False, s2)
               else (True, s2\<lparr>browserClosedListener := Some BrowserClosedHandle,
                                registered := insert BrowserClosedHandle (registered s2)\<rparr>)))"

text \<open>The \<open>catch\<close> block of \<open>start\<close>.\<close>

definition start_failed :: "'r attempt \<Rightarrow> 'r attempt" where
  "start_failed s = call_reject UserRejectedRequest (teardown s)"

definition start :: "('q, 'r) host \<Rightarrow> string \<Rightarrow> 'r attempt \<Rightarrow> 'r attempt" where
  "start h url s =
     (case setupListener h s of
        (False, s1) \<Rightarrow> start_failed s1
      | (True, s1) \<Rightarrow>
          (let s2 = s1\<lparr>host_calls := OpenInWebView url # host_calls s1\<rparr>
           in if openInWebView_ok h then s2\<lparr>browser_open := True\<rparr> else start_failed s2))"

text \<open>
  The state in which \<open>postRequestToWallet\<close> leaves the attempt once \<open>start\<close> is
  through. A throw in the promise's executor (\<open>new URL\<close>) rejects the promise with
  what was thrown, after the timer was armed; the two \<open>throw\<close> statements of the
  function body reject the promise of the \<open>async\<close> function.
\<close>

definition postRequestToWallet ::
  "('q, 'r) host \<Rightarrow> 'q \<Rightarrow> string \<Rightarrow> Wallet \<Rightarrow> 'r attempt" where
  "postRequestToWallet h request appCustomScheme wallet =
     (case wallet_kind wallet of
        Web \<Rightarrow>
          (let s = setTimeout timeout_ms new_attempt
           in case requestUrl h (scheme wallet) request of
                None \<Rightarrow> settle (Rejected InvalidURL) s
              | Some url \<Rightarrow> start h url s)
      | Native \<Rightarrow> settle (Rejected NativeWalletNotSupported) new_attempt
      | OtherKind \<Rightarrow> settle (Rejected UnsupportedWalletType) new_attempt)"

subsection \<open>Events\<close>

datatype event = AppUrlOpen string | BrowserClosed | TimerFired

text \<open>
  The host delivers an event to a callback that is still registered, and fires a
  timer that is still armed, once. A user who dismisses the browser closes it.
\<close>

definition deliver :: "('q, 'r) host \<Rightarrow> string \<Rightarrow> event \<Rightarrow> 'r attempt \<Rightarrow> 'r attempt" where
  "deliver h appCustomScheme e s =
     (case e of
        AppUrlOpen url \<Rightarrow>
          if AppUrlOpenHandle \<in> registered s then appUrlOpen_callback h appCustomScheme url s
          else s
      | BrowserClosed \<Rightarrow>
          if BrowserClosedHandle \<in> registered s
          then browserClosed_callback (s\<lparr>browser_open := False\<rparr>)
          else s\<lparr>browser_open := False\<rparr>
      | TimerFired \<Rightarrow>
          if timer s \<noteq> None then timeout_callback h (s\<lparr>timer := None\<rparr>) else s)"

fun deliver_all :: "('q, 'r) host \<Rightarrow> string \<Rightarrow> event list \<Rightarrow> 'r attempt \<Rightarrow> 'r attempt" where
  "deliver_all h appCustomScheme [] s = s"
| "deliver_all h appCustomScheme (e # es) s =
     deliver_all h appCustomScheme es (deliver h appCustomScheme e s)"

text \<open>An event of one of the three race branches.\<close>

fun decisive :: "string \<Rightarrow> event \<Rightarrow> bool" where
  "decisive appCustomScheme (AppUrlOpen url) = prefix appCustomScheme url"
| "decisive appCustomScheme BrowserClosed = True"
| "decisive appCustomScheme TimerFired = True"

definition launched :: "('q, 'r) host \<Rightarrow> 'q \<Rightarrow> Wallet \<Rightarrow> bool" where
  "launched h request wallet \<longleftrightarrow>
     wallet_kind wallet = Web \<and> requestUrl h (scheme wallet) request \<noteq> None \<and>
     app_addListener_ok h \<and> browser_addListener_ok h \<and> openInWebView_ok h"

definition calls_to_settle :: "'r host_call list \<Rightarrow> nat" where
  "calls_to_settle cs =
     length (filter (\<lambda>c. case c of CallResolve _ \<Rightarrow> True | CallReject _ \<Rightarrow> True | _ \<Rightarrow> False) cs)"

subsection \<open>Concrete collaborators and stores, for running the operations\<close>

definition faulty_env :: "nat env" where
  "faulty_env = demo_env\<lparr>prefs_fault := (\<lambda>n. n = 0)\<rparr>"

definition full_store :: "string \<rightharpoonup> string" where
  "full_store = [''w:ownPrivateKey'' \<mapsto> ''ffff'', ''w:ownPublicKey'' \<mapsto> ''fffff'',
                 ''w:peerPublicKey'' \<mapsto> ''ff'']"

definition half_store :: "string \<rightharpoonup> string" where
  "half_store = [''w:ownPrivateKey'' \<mapsto> ''ffff'']"

lemma awaitE:
  assumes "await m f s = (r, s')"
  obtains (rejected) e where "m s = (Inl e, s')" "r = Inl e"
        | (resolved) a s1 where "m s = (Inr a, s1)" "f a s1 = (r, s')"
  using assms by (auto simp: await_def split: prod.splits sum.splits)

lemma ensuresD_Inr: "ensures P m Q F \<Longrightarrow> P s \<Longrightarrow> m s = (Inr a, s') \<Longrightarrow> Q s'"
  unfolding ensures_def by blast

lemma ensuresD_Inl: "ensures P m Q F \<Longrightarrow> P s \<Longrightarrow> m s = (Inl e, s') \<Longrightarrow> F s'"
  unfolding ensures_def by blast

lemma ensuresD_any: "ensures P m P P \<Longrightarrow> P s \<Longrightarrow> m s = (r, s') \<Longrightarrow> P s'"
  unfolding ensures_def by (cases r) blast+

lemma ensures_await:
  assumes m: "ensures P m Q F" and f: "\<And>a. ensures Q (f a) R F"
  shows "ensures P (await m f) R F"
  unfolding ensures_def
proof (intro conjI allI impI)
  fix s b s' assume P: "P s" and run: "await m f s = (Inr b, s')"
  from run show "R s'"
  proof (cases rule: awaitE)
    case (rejected e)
    then show ?thesis by simp
  next
    case (resolved a s1)
    from ensuresD_Inr[OF m P resolved(1)] have "Q s1" .
    from ensuresD_Inr[OF f this resolved(2)] show ?thesis .
  qed
next
  fix s e s' assume P: "P s" and run: "await m f s = (Inl e, s')"
  from run show "F s'"
  proof (cases rule: awaitE)
    case (rejected e')
    from ensuresD_Inl[OF m P rejected(1)] show ?thesis .
  next
    case (resolved a s1)
    from ensuresD_Inr[OF m P resolved(1)] have "Q s1" .
    from ensuresD_Inl[OF f this resolved(2)] show ?thesis .
  qed
qed

lemma ensures_conj:
  "ensures P m Q F \<Longrightarrow> ensures P' m Q' F' \<Longrightarrow>
   ensures (\<lambda>s. P s \<and> P' s) m (\<lambda>s. Q s \<and> Q' s) (\<lambda>s. F s \<and> F' s)"
  unfolding ensures_def by blast

lemmas prim_defs = await_def loadKey_def getItem_def Preferences_get_def storeKey_def
  setItem_def Preferences_set_def resolve_def reject_def Let_def generateKeyPair_def


lemma loadKeysIfNeeded_steps:
  assumes "ensures P0 (loadOwnPrivateKeyIfNull env) P1 F"
      and "ensures P1 (loadOwnPublicKeyIfNull env) P2 F"
      and "ensures P2 (generateKeyPairIfIncomplete env) P3 F"
      and "ensures P3 (loadPeerPublicKeyIfNull env) P4 F"
      and "ensures P4 (deriveSharedSecretIfNull env) P5 F"
  shows "ensures P0 (loadKeysIfNeeded env) P5 F"
  unfolding loadKeysIfNeeded_def
  by (rule ensures_await[OF assms(1)], rule ensures_await[OF assms(2)],
      rule ensures_await[OF assms(3)], rule ensures_await[OF assms(4)], rule assms(5))

subsection \<open>What each statement does\<close>

lemma loadKey_cases:
  assumes "loadKey env item s = (r, s')"
  shows "s' = s\<lparr>pref_calls := PrefGet (scopedKey env (storageKey item)) # pref_calls s\<rparr> \<and>
         (\<forall>v. r = Inr v \<longrightarrow> v = stored env item s)"
  using assms
  by (auto simp: loadKey_def getItem_def Preferences_get_def await_def resolve_def reject_def
        Let_def stored_def split: if_splits option.splits)

lemma loadOwnPrivateKeyIfNull_cases:
  assumes "loadOwnPrivateKeyIfNull env s = (r, s')"
  shows "(ownPrivateKey s \<noteq> None \<and> r = Inr () \<and> s' = s) \<or>
         (ownPrivateKey s = None \<and> (\<exists>e. r = Inl e) \<and>
            s' = s\<lparr>pref_calls := PrefGet (scopedKey env (storageKey OWN_PRIVATE_KEY)) # pref_calls s\<rparr>) \<or>
         (ownPrivateKey s = None \<and> r = Inr () \<and>
            s' = s\<lparr>pref_calls := PrefGet (scopedKey env (storageKey OWN_PRIVATE_KEY)) # pref_calls s,
                      ownPrivateKey := stored env OWN_PRIVATE_KEY s\<rparr>)"
proof (cases "ownPrivateKey s = None")
  case False
  with assms show ?thesis by (simp add: loadOwnPrivateKeyIfNull_def)
next
  case True
  obtain r1 s1 where l: "loadKey env OWN_PRIVATE_KEY s = (r1, s1)"
    by (cases "loadKey env OWN_PRIVATE_KEY s")
  from loadKey_cases[OF l] assms True l show ?thesis
    by (cases r1) (auto simp: loadOwnPrivateKeyIfNull_def await_def)
qed

lemma loadOwnPublicKeyIfNull_cases:
  assumes "loadOwnPublicKeyIfNull env s = (r, s')"
  shows "(ownPublicKey s \<noteq> None \<and> r = Inr () \<and> s' = s) \<or>
         (ownPublicKey s = None \<and> (\<exists>e. r = Inl e) \<and>
            s' = s\<lparr>pref_calls := PrefGet (scopedKey env (storageKey OWN_PUBLIC_KEY)) # pref_calls s\<rparr>) \<or>
         (ownPublicKey s = None \<and> r = Inr () \<and>
            s' = s\<lparr>pref_calls := PrefGet (scopedKey env (storageKey OWN_PUBLIC_KEY)) # pref_calls s,
                      ownPublicKey := stored env OWN_PUBLIC_KEY s\<rparr>)"
proof (cases "ownPublicKey s = None")
  case False
  with assms show ?thesis by (simp add: loadOwnPublicKeyIfNull_def)
next
  case True
  obtain r1 s1 where l: "loadKey env OWN_PUBLIC_KEY s = (r1, s1)"
    by (cases "loadKey env OWN_PUBLIC_KEY s")
  from loadKey_cases[OF l] assms True l show ?thesis
    by (cases r1) (auto simp: loadOwnPublicKeyIfNull_def await_def)
qed

lemma loadPeerPublicKeyIfNull_cases:
  assumes "loadPeerPublicKeyIfNull env s = (r, s')"
  shows "(peerPublicKey s \<noteq> None \<and> r = Inr () \<and> s' = s) \<or>
         (peerPublicKey s = None \<and> (\<exists>e. r = Inl e) \<and>
            s' = s\<lparr>pref_calls := PrefGet (scopedKey env (storageKey PEER_PUBLIC_KEY)) # pref_calls s\<rparr>) \<or>
         (peerPublicKey s = None \<and> r = Inr () \<and>
            s' = s\<lparr>pref_calls := PrefGet (scopedKey env (storageKey PEER_PUBLIC_KEY)) # pref_calls s,
                      peerPublicKey := stored env PEER_PUBLIC_KEY s\<rparr>)"
proof (cases "peerPublicKey s = None")
  case False
  with assms show ?thesis by (simp add: loadPeerPublicKeyIfNull_def)
next
  case True
  obtain r1 s1 where l: "loadKey env PEER_PUBLIC_KEY s = (r1, s1)"
    by (cases "loadKey env PEER_PUBLIC_KEY s")
  from loadKey_cases[OF l] assms True l show ?thesis
    by (cases r1) (auto simp: loadPeerPublicKeyIfNull_def await_def)
qed

lemma deriveSharedSecretIfNull_cases:
  assumes "deriveSharedSecretIfNull env s = (r, s')"
  shows "(r = Inr () \<and> s' = s \<and>
            (sharedSecret s \<noteq> None \<or> ownPrivateKey s = None \<or> peerPublicKey s = None)) \<or>
         (\<exists>p k. sharedSecret s = None \<and> ownPrivateKey s = Some p \<and> peerPublicKey s = Some k \<and>
            cipher_deriveSharedSecret env p k = None \<and> r = Inl KeyDerivationFailure \<and> s' = s) \<or>
         (\<exists>p k d. sharedSecret s = None \<and> ownPrivateKey s = Some p \<and> peerPublicKey s = Some k \<and>
            cipher_deriveSharedSecret env p k = Some d \<and> r = Inr () \<and>
            s' = s\<lparr>sharedSecret := Some d\<rparr>)"
  using assms
  by (auto simp: deriveSharedSecretIfNull_def split: if_splits option.splits)

lemma storeKey_cases:
  assumes "storeKey env item key s = (r, s')"
  shows "(exportKeyToHexString env (keyType item) key = None \<and> r = Inl KeyExportFailure \<and> s' = s) \<or>
         (\<exists>hex. exportKeyToHexString env (keyType item) key = Some hex \<and>
            prefs_fault env (length (pref_calls s)) \<and> r = Inl StorageUnavailable \<and>
            s' = s\<lparr>pref_calls := PrefSet (scopedKey env (storageKey item)) hex # pref_calls s\<rparr>) \<or>
         (\<exists>hex. exportKeyToHexString env (keyType item) key = Some hex \<and>
            \<not> prefs_fault env (length (pref_calls s)) \<and> r = Inr () \<and>
            s' = s\<lparr>pref_calls := PrefSet (scopedKey env (storageKey item)) hex # pref_calls s,
                      prefs := (prefs s)(scopedKey env (storageKey item) \<mapsto> hex)\<rparr>)"
  using assms
  by (auto simp: storeKey_def setItem_def Preferences_set_def reject_def Let_def
        split: if_splits option.splits)


lemma ensuresI:
  assumes "\<And>s r s'. P s \<Longrightarrow> m s = (r, s') \<Longrightarrow>
             (\<forall>a. r = Inr a \<longrightarrow> Q s') \<and> (\<forall>e. r = Inl e \<longrightarrow> F s')"
  shows "ensures P m Q F"
  unfolding ensures_def using assms by blast

lemma generateKeyPair_cases:
  assumes "generateKeyPair env s = (r, s')"
  shows "(cipher_generateKeyPair env (keygen_calls s) = None \<and> r = Inl KeyGenerationFailure \<and>
            s' = s\<lparr>keygen_calls := Suc (keygen_calls s)\<rparr>) \<or>
         (\<exists>p q. cipher_generateKeyPair env (keygen_calls s) = Some (p, q) \<and>
            ((exportKeyToHexString env Private p = None \<and> r = Inl KeyExportFailure \<and>
              s' = s\<lparr>keygen_calls := Suc (keygen_calls s), ownPrivateKey := Some p,
                        ownPublicKey := Some q\<rparr>) \<or>
             (\<exists>hp. exportKeyToHexString env Private p = Some hp \<and>
                prefs_fault env (length (pref_calls s)) \<and> r = Inl StorageUnavailable \<and>
                s' = s\<lparr>keygen_calls := Suc (keygen_calls s), ownPrivateKey := Some p,
                          ownPublicKey := Some q,
                          pref_calls := PrefSet (scopedKey env ''ownPrivateKey'') hp # pref_calls s\<rparr>) \<or>
             (\<exists>hp. exportKeyToHexString env Private p = Some hp \<and>
                \<not> prefs_fault env (length (pref_calls s)) \<and>
                exportKeyToHexString env Public q = None \<and> r = Inl KeyExportFailure \<and>
                s' = s\<lparr>keygen_calls := Suc (keygen_calls s), ownPrivateKey := Some p,
                          ownPublicKey := Some q,
                          pref_calls := PrefSet (scopedKey env ''ownPrivateKey'') hp # pref_calls s,
                          prefs := (prefs s)(scopedKey env ''ownPrivateKey'' \<mapsto> hp)\<rparr>) \<or>
             (\<exists>hp hq. exportKeyToHexString env Private p = Some hp \<and>
                \<not> prefs_fault env (length (pref_calls s)) \<and>
                exportKeyToHexString env Public q = Some hq \<and>
                prefs_fault env (Suc (length (pref_calls s))) \<and> r = Inl StorageUnavailable \<and>
                s' = s\<lparr>keygen_calls := Suc (keygen_calls s), ownPrivateKey := Some p,
                          ownPublicKey := Some q,
                          pref_calls := PrefSet (scopedKey env ''ownPublicKey'') hq #
                            PrefSet (scopedKey env ''ownPrivateKey'') hp # pref_calls s,
                          prefs := (prefs s)(scopedKey env ''ownPrivateKey'' \<mapsto> hp)\<rparr>) \<or>
             (\<exists>hp hq. exportKeyToHexString env Private p = Some hp \<and>
                \<not> prefs_fault env (length (pref_calls s)) \<and>
                exportKeyToHexString env Public q = Some hq \<and>
                \<not> prefs_fault env (Suc (length (pref_calls s))) \<and> r = Inr () \<and>
                s' = s\<lparr>keygen_calls := Suc (keygen_calls s), ownPrivateKey := Some p,
                          ownPublicKey := Some q,
                          pref_calls := PrefSet (scopedKey env ''ownPublicKey'') hq #
                            PrefSet (scopedKey env ''ownPrivateKey'') hp # pref_calls s,
                          prefs := (prefs s)(scopedKey env ''ownPrivateKey'' \<mapsto> hp,
                                             scopedKey env ''ownPublicKey'' \<mapsto> hq)\<rparr>)))"
  using assms
  by (auto simp: prim_defs OWN_PRIVATE_KEY_def OWN_PUBLIC_KEY_def
        split: if_splits option.splits)

lemma generateKeyPairIfIncomplete_cases:
  assumes "generateKeyPairIfIncomplete env s = (r, s')"
  shows "(ownPrivateKey s \<noteq> None \<and> ownPublicKey s \<noteq> None \<and> r = Inr () \<and> s' = s) \<or>
         ((ownPrivateKey s = None \<or> ownPublicKey s = None) \<and> generateKeyPair env s = (r, s'))"
  using assms by (auto simp: generateKeyPairIfIncomplete_def split: if_splits)

lemma loadKeysIfNeeded_inv:
  assumes "ensures P (loadOwnPrivateKeyIfNull env) P P"
      and "ensures P (loadOwnPublicKeyIfNull env) P P"
      and "ensures P (generateKeyPairIfIncomplete env) P P"
      and "ensures P (loadPeerPublicKeyIfNull env) P P"
      and "ensures P (deriveSharedSecretIfNull env) P P"
  shows "ensures P (loadKeysIfNeeded env) P P"
  using assms by (rule loadKeysIfNeeded_steps)

subsection \<open>The cached secret stays coherent\<close>

lemma coherent_step1:
  "ensures (secret_coherent env) (loadOwnPrivateKeyIfNull env) (secret_coherent env) (secret_coherent env)"
  by (rule ensuresI, drule loadOwnPrivateKeyIfNull_cases)
     (auto simp: secret_coherent_def split: option.splits)

lemma coherent_step2:
  "ensures (secret_coherent env) (loadOwnPublicKeyIfNull env) (secret_coherent env) (secret_coherent env)"
  by (rule ensuresI, drule loadOwnPublicKeyIfNull_cases)
     (auto simp: secret_coherent_def split: option.splits)

lemma coherent_step3:
  "ensures (secret_coherent env) (generateKeyPairIfIncomplete env)
     (\<lambda>s. secret_coherent env s \<and> own_pair s) (secret_coherent env)"
  by (rule ensuresI, drule generateKeyPairIfIncomplete_cases)
     (auto dest!: generateKeyPair_cases simp: secret_coherent_def own_pair_def split: option.splits)

lemma coherent_step4:
  "ensures (\<lambda>s. secret_coherent env s \<and> own_pair s) (loadPeerPublicKeyIfNull env)
     (\<lambda>s. secret_coherent env s \<and> own_pair s) (secret_coherent env)"
  by (rule ensuresI, drule loadPeerPublicKeyIfNull_cases)
     (auto simp: secret_coherent_def own_pair_def split: option.splits)

lemma coherent_step5:
  "ensures (\<lambda>s. secret_coherent env s \<and> own_pair s) (deriveSharedSecretIfNull env)
     (\<lambda>s. secret_coherent env s \<and> own_pair s \<and> (peerPublicKey s \<noteq> None \<longrightarrow> sharedSecret s \<noteq> None))
     (secret_coherent env)"
  by (rule ensuresI, drule deriveSharedSecretIfNull_cases)
     (auto simp: secret_coherent_def own_pair_def split: option.splits)

lemma loadKeysIfNeeded_coherent:
  "ensures (secret_coherent env) (loadKeysIfNeeded env)
     (\<lambda>s. secret_coherent env s \<and> own_pair s \<and> (peerPublicKey s \<noteq> None \<longrightarrow> sharedSecret s \<noteq> None))
     (secret_coherent env)"
  by (rule loadKeysIfNeeded_steps[OF coherent_step1 coherent_step2 coherent_step3
        coherent_step4 coherent_step5])

lemma loadKeysIfNeeded_keeps_peer:
  "ensures (\<lambda>s. peerPublicKey s = Some k) (loadKeysIfNeeded env)
     (\<lambda>s. peerPublicKey s = Some k) (\<lambda>s. peerPublicKey s = Some k)"
proof (rule loadKeysIfNeeded_inv)
  show "ensures (\<lambda>s. peerPublicKey s = Some k) (loadOwnPrivateKeyIfNull env)
          (\<lambda>s. peerPublicKey s = Some k) (\<lambda>s. peerPublicKey s = Some k)"
    by (rule ensuresI, drule loadOwnPrivateKeyIfNull_cases) auto
  show "ensures (\<lambda>s. peerPublicKey s = Some k) (loadOwnPublicKeyIfNull env)
          (\<lambda>s. peerPublicKey s = Some k) (\<lambda>s. peerPublicKey s = Some k)"
    by (rule ensuresI, drule loadOwnPublicKeyIfNull_cases) auto
  show "ensures (\<lambda>s. peerPublicKey s = Some k) (generateKeyPairIfIncomplete env)
          (\<lambda>s. peerPublicKey s = Some k) (\<lambda>s. peerPublicKey s = Some k)"
    by (rule ensuresI, drule generateKeyPairIfIncomplete_cases)
       (auto dest!: generateKeyPair_cases)
  show "ensures (\<lambda>s. peerPublicKey s = Some k) (loadPeerPublicKeyIfNull env)
          (\<lambda>s. peerPublicKey s = Some k) (\<lambda>s. peerPublicKey s = Some k)"
    by (rule ensuresI, drule loadPeerPublicKeyIfNull_cases) auto
  show "ensures (\<lambda>s. peerPublicKey s = Some k) (deriveSharedSecretIfNull env)
          (\<lambda>s. peerPublicKey s = Some k) (\<lambda>s. peerPublicKey s = Some k)"
    by (rule ensuresI, drule deriveSharedSecretIfNull_cases) auto
qed


lemma storeKey_fields:
  "storeKey env item key s = (r, s') \<Longrightarrow>
     ownPrivateKey s' = ownPrivateKey s \<and> ownPublicKey s' = ownPublicKey s \<and>
     peerPublicKey s' = peerPublicKey s \<and> sharedSecret s' = sharedSecret s \<and>
     keygen_calls s' = keygen_calls s"
  by (drule storeKey_cases) auto

lemma storeKey_coherent_peer:
  "ensures (\<lambda>s. secret_coherent env s \<and> peerPublicKey s = Some k) (storeKey env item key)
     (\<lambda>s. secret_coherent env s \<and> peerPublicKey s = Some k)
     (\<lambda>s. secret_coherent env s \<and> peerPublicKey s = Some k)"
  by (rule ensuresI, drule storeKey_cases) (auto simp: secret_coherent_def split: option.splits)

lemma loadKeysIfNeeded_coherent_peer:
  "ensures (\<lambda>s. secret_coherent env s \<and> peerPublicKey s = Some k) (loadKeysIfNeeded env)
     (\<lambda>s. (secret_coherent env s \<and> own_pair s \<and> (peerPublicKey s \<noteq> None \<longrightarrow> sharedSecret s \<noteq> None))
           \<and> peerPublicKey s = Some k)
     (\<lambda>s. secret_coherent env s \<and> peerPublicKey s = Some k)"
  by (rule ensures_conj[OF loadKeysIfNeeded_coherent loadKeysIfNeeded_keeps_peer])


lemma setPeerPublicKey_body:
  "ensures (\<lambda>s. secret_coherent env s \<and> peerPublicKey s = Some k)
     (await (storeKey env PEER_PUBLIC_KEY k) (\<lambda>_. loadKeysIfNeeded env))
     (\<lambda>s. (secret_coherent env s \<and> own_pair s \<and> (peerPublicKey s \<noteq> None \<longrightarrow> sharedSecret s \<noteq> None))
           \<and> peerPublicKey s = Some k)
     (\<lambda>s. secret_coherent env s \<and> peerPublicKey s = Some k)"
  by (rule ensures_await[OF storeKey_coherent_peer loadKeysIfNeeded_coherent_peer])

lemma setPeerPublicKey_unfold:
  "setPeerPublicKey env k s =
     await (storeKey env PEER_PUBLIC_KEY k) (\<lambda>_. loadKeysIfNeeded env)
       (s\<lparr>sharedSecret := None, peerPublicKey := Some k\<rparr>)"
  by (simp add: setPeerPublicKey_def)

lemma setPeerPublicKey_Inr:
  assumes "setPeerPublicKey env k s = (Inr a, s')"
  shows "secret_coherent env s' \<and> own_pair s' \<and> sharedSecret s' \<noteq> None \<and> peerPublicKey s' = Some k"
proof -
  let ?t = "s\<lparr>sharedSecret := None, peerPublicKey := Some k\<rparr>"
  have start: "secret_coherent env ?t \<and> peerPublicKey ?t = Some k"
    by (simp add: secret_coherent_def)
  from assms have run: "await (storeKey env PEER_PUBLIC_KEY k) (\<lambda>_. loadKeysIfNeeded env) ?t = (Inr a, s')"
    by (simp only: setPeerPublicKey_unfold)
  from ensuresD_Inr[OF setPeerPublicKey_body start run] show ?thesis by simp
qed

lemma setPeerPublicKey_any:
  assumes "setPeerPublicKey env k s = (r, s')"
  shows "secret_coherent env s' \<and> peerPublicKey s' = Some k"
proof -
  let ?t = "s\<lparr>sharedSecret := None, peerPublicKey := Some k\<rparr>"
  have start: "secret_coherent env ?t \<and> peerPublicKey ?t = Some k"
    by (simp add: secret_coherent_def)
  from assms have run: "await (storeKey env PEER_PUBLIC_KEY k) (\<lambda>_. loadKeysIfNeeded env) ?t = (r, s')"
    by (simp only: setPeerPublicKey_unfold)
  show ?thesis
  proof (cases r)
    case (Inl e)
    from ensuresD_Inl[OF setPeerPublicKey_body start run[unfolded Inl]] show ?thesis .
  next
    case (Inr a)
    from ensuresD_Inr[OF setPeerPublicKey_body start run[unfolded Inr]] show ?thesis by simp
  qed
qed

lemma getSharedSecret_result:
  "getSharedSecret env s = (Inr v, s') \<Longrightarrow> loadKeysIfNeeded env s = (Inr (), s') \<and> v = sharedSecret s'"
  by (auto simp: getSharedSecret_def elim!: awaitE)

lemma getOwnPublicKey_result:
  "getOwnPublicKey env s = (Inr v, s') \<Longrightarrow> loadKeysIfNeeded env s = (Inr (), s') \<and> v = ownPublicKey s'"
  by (auto simp: getOwnPublicKey_def elim!: awaitE)



subsection \<open>A missing half makes a new pair\<close>

lemma regenerate_step1:
  "ensures (\<lambda>s. needs_keypair env s \<and> keygen_calls s = n) (loadOwnPrivateKeyIfNull env)
     (\<lambda>s. (ownPrivateKey s = None \<or> ownPublicKey s = None \<and> absent env OWN_PUBLIC_KEY s)
        \<and> keygen_calls s = n) (\<lambda>_. True)"
  by (rule ensuresI, drule loadOwnPrivateKeyIfNull_cases)
     (auto simp: needs_keypair_def absent_def stored_def split: option.splits)

lemma regenerate_step2:
  "ensures (\<lambda>s. (ownPrivateKey s = None \<or> ownPublicKey s = None \<and> absent env OWN_PUBLIC_KEY s)
        \<and> keygen_calls s = n) (loadOwnPublicKeyIfNull env)
     (\<lambda>s. (ownPrivateKey s = None \<or> ownPublicKey s = None) \<and> keygen_calls s = n)
     (\<lambda>_. True)"
  by (rule ensuresI, drule loadOwnPublicKeyIfNull_cases)
     (auto simp: absent_def stored_def split: option.splits)

lemma regenerate_step3:
  "ensures (\<lambda>s. (ownPrivateKey s = None \<or> ownPublicKey s = None) \<and> keygen_calls s = keygen_calls s0)
     (generateKeyPairIfIncomplete env) (\<lambda>s. \<exists>p q. regenerated env s0 s p q) (\<lambda>_. True)"
  by (rule ensuresI, drule generateKeyPairIfIncomplete_cases)
     (auto dest!: generateKeyPair_cases simp: regenerated_def OWN_PRIVATE_KEY_def OWN_PUBLIC_KEY_def)

lemma regenerated_frame:
  assumes "regenerated env s0 s p q" "keygen_calls s' = keygen_calls s"
    "ownPrivateKey s' = ownPrivateKey s" "ownPublicKey s' = ownPublicKey s" "prefs s' = prefs s"
  shows "regenerated env s0 s' p q"
  using assms by (simp add: regenerated_def)

lemma ensures_ex:
  "(\<And>x. ensures (P x) m (Q x) F) \<Longrightarrow> ensures (\<lambda>s. \<exists>x. P x s) m (\<lambda>s. \<exists>x. Q x s) F"
  unfolding ensures_def by blast

lemma regenerate_step4:
  "ensures (\<lambda>s. \<exists>p q. regenerated env s0 s p q) (loadPeerPublicKeyIfNull env)
     (\<lambda>s. \<exists>p q. regenerated env s0 s p q) (\<lambda>_. True)"
  by (intro ensures_ex, rule ensuresI, drule loadPeerPublicKeyIfNull_cases)
     (auto elim!: regenerated_frame)

lemma regenerate_step5:
  "ensures (\<lambda>s. \<exists>p q. regenerated env s0 s p q) (deriveSharedSecretIfNull env)
     (\<lambda>s. \<exists>p q. regenerated env s0 s p q) (\<lambda>_. True)"
  by (intro ensures_ex, rule ensuresI, drule deriveSharedSecretIfNull_cases)
     (auto elim!: regenerated_frame)

lemma regenerate_steps:
  "ensures (\<lambda>s. needs_keypair env s \<and> keygen_calls s = keygen_calls s0) (loadKeysIfNeeded env)
     (\<lambda>s. \<exists>p q. regenerated env s0 s p q) (\<lambda>_. True)"
  by (rule loadKeysIfNeeded_steps[OF regenerate_step1 regenerate_step2 regenerate_step3
        regenerate_step4 regenerate_step5])

lemma regenerate:
  assumes "needs_keypair env s" "loadKeysIfNeeded env s = (Inr a, s')"
  shows "\<exists>p q. regenerated env s s' p q"
proof -
  from assms(1) have "needs_keypair env s \<and> keygen_calls s = keygen_calls s" by simp
  from ensuresD_Inr[OF regenerate_steps this assms(2)] show ?thesis .
qed

lemma secret_of_coherent:
  assumes "secret_coherent env s" "ownPrivateKey s = Some p"
    "peerPublicKey s \<noteq> None \<longrightarrow> sharedSecret s \<noteq> None"
  shows "sharedSecret s = (case peerPublicKey s of None \<Rightarrow> None
                           | Some k \<Rightarrow> cipher_deriveSharedSecret env p k)"
  using assms by (auto simp: secret_coherent_def split: option.splits)

text \<open>
  Claim C2. Take a manager in which one half of the own key pair is missing: it is
  unset in memory and storage holds no value for it (\<open>needs_keypair\<close>); this is the
  state of a newly constructed manager over a store that holds only the other half.
  Then an access that completes, \<open>getOwnPublicKey\<close> or \<open>getSharedSecret\<close>, has
  called the cipher's \<open>generateKeyPair\<close>, holds the new pair in memory, has written
  both halves to storage, and answers from the new pair: the public key returned is
  the new one, and the secret returned is derived from the new private key. The half
  that was stored is not part of what is returned.
\<close>

theorem partial_keypair_is_regenerated:
  assumes "needs_keypair env s"
  shows "(\<forall>v s'. getOwnPublicKey env s = (Inr v, s') \<longrightarrow>
            (\<exists>p q. regenerated env s s' p q \<and> v = Some q)) \<and>
         (secret_coherent env s \<longrightarrow>
            (\<forall>v s'. getSharedSecret env s = (Inr v, s') \<longrightarrow>
               (\<exists>p q. regenerated env s s' p q \<and>
                  v = (case peerPublicKey s' of None \<Rightarrow> None
                       | Some k \<Rightarrow> cipher_deriveSharedSecret env p k))))"
proof (intro conjI allI impI)
  fix v s' assume get: "getOwnPublicKey env s = (Inr v, s')"
  from getOwnPublicKey_result[OF get]
  have load: "loadKeysIfNeeded env s = (Inr (), s')" and v: "v = ownPublicKey s'"
    by simp_all
  from regenerate[OF assms load] obtain p q where pq: "regenerated env s s' p q"
    by blast
  then have "ownPublicKey s' = Some q"
    by (simp add: regenerated_def)
  with pq v show "\<exists>p q. regenerated env s s' p q \<and> v = Some q"
    by auto
next
  fix v s' assume coh: "secret_coherent env s" and get: "getSharedSecret env s = (Inr v, s')"
  from getSharedSecret_result[OF get]
  have load: "loadKeysIfNeeded env s = (Inr (), s')" and v: "v = sharedSecret s'"
    by simp_all
  from regenerate[OF assms load] obtain p q where pq: "regenerated env s s' p q"
    by blast
  then have priv: "ownPrivateKey s' = Some p"
    by (simp add: regenerated_def)
  note post = ensuresD_Inr[OF loadKeysIfNeeded_coherent coh load]
  from post have "secret_coherent env s'" "peerPublicKey s' \<noteq> None \<longrightarrow> sharedSecret s' \<noteq> None"
    by simp_all
  from secret_of_coherent[OF this(1) priv this(2)] v pq
  show "\<exists>p q. regenerated env s s' p q \<and>
          v = (case peerPublicKey s' of None \<Rightarrow> None | Some k \<Rightarrow> cipher_deriveSharedSecret env p k)"
    by auto
qed

theorem partial_keypair_is_regenerated_witness:
  "stored demo_env OWN_PRIVATE_KEY (new_manager half_store) = Some 3 \<and>
   absent demo_env OWN_PUBLIC_KEY (new_manager half_store) \<and>
   fst (getOwnPublicKey demo_env (new_manager half_store)) = Inr (Some 1) \<and>
   ownPrivateKey (snd (getOwnPublicKey demo_env (new_manager half_store))) = Some 0 \<and>
   prefs (snd (getOwnPublicKey demo_env (new_manager half_store))) ''w:ownPrivateKey'' = Some ''f'' \<and>
   prefs (snd (getOwnPublicKey demo_env (new_manager half_store))) ''w:ownPublicKey'' = Some ''ff''"
proof -
  define s where "s = (new_manager half_store :: nat KeyManager)"
  define s' where "s' = snd (getOwnPublicKey demo_env s)"
  have half: "stored demo_env OWN_PRIVATE_KEY s = Some 3" "absent demo_env OWN_PUBLIC_KEY s"
    unfolding s_def by code_simp+
  have "ownPublicKey s = None"
    by (simp add: s_def new_manager_def)
  with half have needs: "needs_keypair demo_env s"
    by (simp add: needs_keypair_def)
  have "\<not> isl (fst (getOwnPublicKey demo_env s))"
    unfolding s_def by code_simp
  then obtain v where "fst (getOwnPublicKey demo_env s) = Inr v"
    by (cases "fst (getOwnPublicKey demo_env s)") auto
  then have run: "getOwnPublicKey demo_env s = (Inr v, s')"
    by (simp add: s'_def prod_eq_iff)
  from partial_keypair_is_regenerated[OF needs] run
  obtain p q where pq: "regenerated demo_env s s' p q" and v: "v = Some q"
    by blast
  have gen: "cipher_generateKeyPair demo_env (keygen_calls s) = Some (0, 1)"
    by (simp add: s_def new_manager_def demo_env_def)
  have keys: "scopedKey demo_env (storageKey OWN_PRIVATE_KEY) = ''w:ownPrivateKey''"
      "scopedKey demo_env (storageKey OWN_PUBLIC_KEY) = ''w:ownPublicKey''"
    by (simp_all add: demo_env_def OWN_PRIVATE_KEY_def OWN_PUBLIC_KEY_def)
  have hex: "exportKeyToHexString demo_env Private 0 = Some ''f''"
      "exportKeyToHexString demo_env Public 1 = Some ''ff''"
    by (simp_all add: demo_env_def)
  from pq gen have p: "p = 0" and q: "q = 1"
    by (simp_all add: regenerated_def)
  from run v q have "fst (getOwnPublicKey demo_env s) = Inr (Some 1)"
    by simp
  moreover from pq p have "ownPrivateKey s' = Some 0"
    by (simp add: regenerated_def)
  moreover from pq p keys hex have "prefs s' ''w:ownPrivateKey'' = Some ''f''"
    by (simp add: regenerated_def)
  moreover from pq q keys hex have "prefs s' ''w:ownPublicKey'' = Some ''ff''"
    by (simp add: regenerated_def)
  ultimately show ?thesis
    using half unfolding s'_def s_def by blast
qed

subsection \<open>What an operation writes\<close>

lemma log_extends_refl: "log_extends L W L"
  by (simp add: log_extends_def)

lemma log_extends_Get: "log_extends L W cs \<Longrightarrow> log_extends L W (PrefGet k # cs)"
  unfolding log_extends_def
  by (elim exE conjE, rule_tac x = "PrefGet k # new" in exI) auto

lemma log_extends_Remove: "log_extends L W cs \<Longrightarrow> log_extends L W (PrefRemove k # cs)"
  unfolding log_extends_def
  by (elim exE conjE, rule_tac x = "PrefRemove k # new" in exI) auto

lemma log_extends_Set: "log_extends L W cs \<Longrightarrow> W slot hex \<Longrightarrow> log_extends L W (PrefSet slot hex # cs)"
  unfolding log_extends_def
  by (elim exE conjE, rule_tac x = "PrefSet slot hex # new" in exI) auto

lemmas log_extends_intros = log_extends_Get log_extends_Remove log_extends_Set

lemma written_own_private:
  "cipher_generateKeyPair env n = Some (p, q) \<Longrightarrow> exportKeyToHexString env Private p = Some hex \<Longrightarrow>
   written_by env c (scopedKey env ''ownPrivateKey'') hex"
  unfolding written_by_def OWN_PRIVATE_KEY_def by auto

lemma written_own_public:
  "cipher_generateKeyPair env n = Some (p, q) \<Longrightarrow> exportKeyToHexString env Public q = Some hex \<Longrightarrow>
   written_by env c (scopedKey env ''ownPublicKey'') hex"
  unfolding written_by_def OWN_PUBLIC_KEY_def by auto

lemma written_peer:
  "exportKeyToHexString env Public key = Some hex \<Longrightarrow>
   written_by env (SetPeerPublicKey key) (scopedKey env ''peerPublicKey'') hex"
  unfolding written_by_def PEER_PUBLIC_KEY_def by auto

lemma loadKeysIfNeeded_log:
  "ensures (\<lambda>s. log_extends L (written_by env c) (pref_calls s)) (loadKeysIfNeeded env)
     (\<lambda>s. log_extends L (written_by env c) (pref_calls s))
     (\<lambda>s. log_extends L (written_by env c) (pref_calls s))"
proof (rule loadKeysIfNeeded_inv)
  let ?P = "\<lambda>s. log_extends L (written_by env c) (pref_calls s)"
  show "ensures ?P (loadOwnPrivateKeyIfNull env) ?P ?P"
    by (rule ensuresI, drule loadOwnPrivateKeyIfNull_cases) (auto intro: log_extends_Get)
  show "ensures ?P (loadOwnPublicKeyIfNull env) ?P ?P"
    by (rule ensuresI, drule loadOwnPublicKeyIfNull_cases) (auto intro: log_extends_Get)
  show "ensures ?P (generateKeyPairIfIncomplete env) ?P ?P"
    by (rule ensuresI, drule generateKeyPairIfIncomplete_cases)
       (auto dest!: generateKeyPair_cases
             intro!: log_extends_Set written_own_private written_own_public)
  show "ensures ?P (loadPeerPublicKeyIfNull env) ?P ?P"
    by (rule ensuresI, drule loadPeerPublicKeyIfNull_cases) (auto intro: log_extends_Get)
  show "ensures ?P (deriveSharedSecretIfNull env) ?P ?P"
    by (rule ensuresI, drule deriveSharedSecretIfNull_cases) auto
qed

lemma loadKeysIfNeeded_writes:
  assumes "loadKeysIfNeeded env s = (r, s')"
  shows "log_extends (pref_calls s) (written_by env c) (pref_calls s')"
  by (rule ensuresD_any[OF loadKeysIfNeeded_log log_extends_refl assms])

lemma getOwnPublicKey_unfold:
  "getOwnPublicKey env s = (r, s') \<Longrightarrow> \<exists>r1. loadKeysIfNeeded env s = (r1, s')"
  by (auto simp: getOwnPublicKey_def elim!: awaitE)

lemma getSharedSecret_unfold:
  "getSharedSecret env s = (r, s') \<Longrightarrow> \<exists>r1. loadKeysIfNeeded env s = (r1, s')"
  by (auto simp: getSharedSecret_def elim!: awaitE)

lemma setPeerPublicKey_writes:
  assumes "setPeerPublicKey env k s = (r, s')"
  shows "log_extends (pref_calls s) (written_by env (SetPeerPublicKey k)) (pref_calls s')"
proof -
  let ?P = "\<lambda>s. log_extends (pref_calls s) (written_by env (SetPeerPublicKey k)) (pref_calls s)"
  let ?Q = "\<lambda>t. log_extends (pref_calls s) (written_by env (SetPeerPublicKey k)) (pref_calls t)"
  let ?t = "s\<lparr>sharedSecret := None, peerPublicKey := Some k\<rparr>"
  have store: "ensures ?Q (storeKey env PEER_PUBLIC_KEY k) ?Q ?Q"
    by (rule ensuresI, drule storeKey_cases)
       (auto intro!: log_extends_Set written_peer simp: PEER_PUBLIC_KEY_def)
  have body: "ensures ?Q (await (storeKey env PEER_PUBLIC_KEY k) (\<lambda>_. loadKeysIfNeeded env)) ?Q ?Q"
    by (rule ensures_await[OF store loadKeysIfNeeded_log])
  have start: "?Q ?t"
    by (simp add: log_extends_refl)
  from assms have run: "await (storeKey env PEER_PUBLIC_KEY k) (\<lambda>_. loadKeysIfNeeded env) ?t = (r, s')"
    by (simp only: setPeerPublicKey_unfold)
  from ensuresD_any[OF body start run] show ?thesis .
qed

lemma clear_attempts_log:
  "pref_calls (snd (clear env s)) =
     [PrefRemove (scopedKey env (storageKey PEER_PUBLIC_KEY)),
      PrefRemove (scopedKey env (storageKey OWN_PRIVATE_KEY)),
      PrefRemove (scopedKey env (storageKey OWN_PUBLIC_KEY))] @ pref_calls s"
  by (simp add: clear_def removeItem_def Preferences_remove_def Let_def)

lemma clear_writes:
  "log_extends (pref_calls s) W (pref_calls (snd (clear env s)))"
  by (simp add: clear_attempts_log log_extends_def)


subsection \<open>Reachable states are coherent\<close>

lemma ensures_weaken:
  "ensures P m Q F \<Longrightarrow> (\<And>s. Q s \<Longrightarrow> Q' s) \<Longrightarrow> (\<And>s. F s \<Longrightarrow> F' s) \<Longrightarrow> ensures P m Q' F'"
  unfolding ensures_def by blast

lemma loadKeysIfNeeded_coherent_any:
  assumes "secret_coherent env s" "loadKeysIfNeeded env s = (r, s')"
  shows "secret_coherent env s'"
proof -
  have "ensures (secret_coherent env) (loadKeysIfNeeded env) (secret_coherent env) (secret_coherent env)"
    by (rule ensures_weaken[OF loadKeysIfNeeded_coherent]) simp_all
  from ensuresD_any[OF this assms] show ?thesis .
qed

lemma clear_memory:
  "ownPrivateKey (snd (clear env s)) = None \<and> ownPublicKey (snd (clear env s)) = None \<and>
   peerPublicKey (snd (clear env s)) = None \<and> sharedSecret (snd (clear env s)) = None \<and>
   keygen_calls (snd (clear env s)) = keygen_calls s"
  by (simp add: clear_def removeItem_def Preferences_remove_def Let_def)

lemma call_coherent:
  assumes "secret_coherent env s"
  shows "secret_coherent env (snd (call env c s))"
proof (cases c)
  case GetOwnPublicKey
  obtain r s' where run: "getOwnPublicKey env s = (r, s')"
    by (cases "getOwnPublicKey env s")
  from getOwnPublicKey_unfold[OF run] obtain r1 where "loadKeysIfNeeded env s = (r1, s')"
    by blast
  from loadKeysIfNeeded_coherent_any[OF assms this] run GetOwnPublicKey show ?thesis
    by (simp add: as_key_def)
next
  case GetSharedSecret
  obtain r s' where run: "getSharedSecret env s = (r, s')"
    by (cases "getSharedSecret env s")
  from getSharedSecret_unfold[OF run] obtain r1 where "loadKeysIfNeeded env s = (r1, s')"
    by blast
  from loadKeysIfNeeded_coherent_any[OF assms this] run GetSharedSecret show ?thesis
    by (simp add: as_key_def)
next
  case (SetPeerPublicKey k)
  obtain r s' where run: "setPeerPublicKey env k s = (r, s')"
    by (cases "setPeerPublicKey env k s")
  from setPeerPublicKey_any[OF run] run SetPeerPublicKey show ?thesis
    by (simp add: as_void_def)
next
  case Clear
  with clear_memory[of env s] show ?thesis
    by (simp add: as_void_def secret_coherent_def)
qed

lemma after_calls_coherent:
  "secret_coherent env s \<Longrightarrow> secret_coherent env (after_calls env cs s)"
  by (induction cs arbitrary: s) (simp_all add: call_coherent)

lemma reachable_coherent:
  assumes "reachable env s"
  shows "secret_coherent env s"
proof -
  from assms obtain s0 cs where "constructed s0" and s: "s = after_calls env cs s0"
    by (auto simp: reachable_def)
  then have "secret_coherent env s0"
    by (simp add: constructed_def secret_coherent_def)
  with s show ?thesis
    by (simp add: after_calls_coherent)
qed

lemma loaded_iff:
  assumes "secret_coherent env s" "own_pair s" "peerPublicKey s \<noteq> None \<longrightarrow> sharedSecret s \<noteq> None"
  shows "sharedSecret s \<noteq> None \<longleftrightarrow>
         ownPrivateKey s \<noteq> None \<and> ownPublicKey s \<noteq> None \<and> peerPublicKey s \<noteq> None"
  using assms by (auto simp: secret_coherent_def own_pair_def split: option.splits)

lemma log_extendsD:
  "log_extends L W cs \<Longrightarrow> \<exists>new. cs = new @ L \<and> (\<forall>slot hex. PrefSet slot hex \<in> set new \<longrightarrow> W slot hex)"
  by (simp add: log_extends_def)

text \<open>
  Claim C6. In every state that a manager reaches from its construction through its
  public operations (completed or rejected), the cached secret is coherent; and after
  an operation that completes, the in-memory shared secret is present exactly when
  the own private key, the own public key and the peer public key are all present.
  The calls an operation issues to storage extend the log, and every write among them
  stores the export of a generated own key or of the peer key passed in, under that
  key's slot: no operation writes the shared secret, and there is no slot for it.
\<close>

theorem secret_present_iff_keys_present:
  assumes "reachable env s" and "call env c s = (Inr v, s')"
  shows "(sharedSecret s' \<noteq> None \<longleftrightarrow>
            ownPrivateKey s' \<noteq> None \<and> ownPublicKey s' \<noteq> None \<and> peerPublicKey s' \<noteq> None) \<and>
         (\<exists>new. pref_calls s' = new @ pref_calls s \<and>
            (\<forall>slot hex. PrefSet slot hex \<in> set new \<longrightarrow> written_by env c slot hex))"
proof -
  note coh = reachable_coherent[OF assms(1)]
  show ?thesis
  proof (cases c)
    case GetOwnPublicKey
    with assms(2) obtain k where get: "getOwnPublicKey env s = (Inr k, s')"
      by (cases "getOwnPublicKey env s"; cases "fst (getOwnPublicKey env s)")
         (auto simp: as_key_def)
    from getOwnPublicKey_result[OF get] have load: "loadKeysIfNeeded env s = (Inr (), s')"
      by simp
    note post = ensuresD_Inr[OF loadKeysIfNeeded_coherent coh load]
    from post have "secret_coherent env s'" "own_pair s'"
        "peerPublicKey s' \<noteq> None \<longrightarrow> sharedSecret s' \<noteq> None"
      by simp_all
    from loaded_iff[OF this] log_extendsD[OF loadKeysIfNeeded_writes[OF load]]
    show ?thesis by blast
  next
    case GetSharedSecret
    with assms(2) obtain k where get: "getSharedSecret env s = (Inr k, s')"
      by (cases "getSharedSecret env s"; cases "fst (getSharedSecret env s)")
         (auto simp: as_key_def)
    from getSharedSecret_result[OF get] have load: "loadKeysIfNeeded env s = (Inr (), s')"
      by simp
    note post = ensuresD_Inr[OF loadKeysIfNeeded_coherent coh load]
    from post have "secret_coherent env s'" "own_pair s'"
        "peerPublicKey s' \<noteq> None \<longrightarrow> sharedSecret s' \<noteq> None"
      by simp_all
    from loaded_iff[OF this] log_extendsD[OF loadKeysIfNeeded_writes[OF load]]
    show ?thesis by blast
  next
    case (SetPeerPublicKey k)
    with assms(2) have set: "setPeerPublicKey env k s = (Inr (), s')"
      by (cases "setPeerPublicKey env k s"; cases "fst (setPeerPublicKey env k s)")
         (auto simp: as_void_def)
    from setPeerPublicKey_Inr[OF set] have "secret_coherent env s'" "own_pair s'"
        "peerPublicKey s' \<noteq> None \<longrightarrow> sharedSecret s' \<noteq> None"
      by simp_all
    from loaded_iff[OF this] log_extendsD[OF setPeerPublicKey_writes[OF set]] SetPeerPublicKey
    show ?thesis by blast
  next
    case Clear
    with assms(2) have s': "s' = snd (clear env s)"
      by (simp add: as_void_def prod_eq_iff)
    from clear_memory[of env s] log_extendsD[OF clear_writes[of s "written_by env c" env]] s'
    show ?thesis by simp
  qed
qed

theorem secret_present_iff_keys_present_witness:
  "fst (call demo_env (SetPeerPublicKey 7)
          (after_calls demo_env [GetOwnPublicKey] (new_manager Map.empty))) = Inr Void \<and>
   sharedSecret (snd (call demo_env (SetPeerPublicKey 7)
          (after_calls demo_env [GetOwnPublicKey] (new_manager Map.empty)))) = Some 7 \<and>
   ownPrivateKey (snd (call demo_env (SetPeerPublicKey 7)
          (after_calls demo_env [GetOwnPublicKey] (new_manager Map.empty)))) \<noteq> None \<and>
   ownPublicKey (snd (call demo_env (SetPeerPublicKey 7)
          (after_calls demo_env [GetOwnPublicKey] (new_manager Map.empty)))) \<noteq> None \<and>
   peerPublicKey (snd (call demo_env (SetPeerPublicKey 7)
          (after_calls demo_env [GetOwnPublicKey] (new_manager Map.empty)))) \<noteq> None"
proof -
  define s where "s = after_calls demo_env [GetOwnPublicKey] (new_manager Map.empty)"
  define s' where "s' = snd (call demo_env (SetPeerPublicKey 7) s)"
  have "constructed (new_manager Map.empty :: nat KeyManager)"
    by (simp add: constructed_def new_manager_def)
  then have reach: "reachable demo_env s"
    unfolding reachable_def s_def by blast
  have ok: "fst (call demo_env (SetPeerPublicKey 7) s) = Inr Void"
    unfolding s_def by code_simp
  then have run: "call demo_env (SetPeerPublicKey 7) s = (Inr Void, s')"
    by (simp add: s'_def prod_eq_iff)
  have secret: "sharedSecret s' = Some 7"
    unfolding s'_def s_def by code_simp
  from secret_present_iff_keys_present[OF reach run] secret
  have "ownPrivateKey s' \<noteq> None \<and> ownPublicKey s' \<noteq> None \<and> peerPublicKey s' \<noteq> None"
    by simp
  with ok secret show ?thesis
    unfolding s'_def s_def by simp
qed

subsection \<open>After clear\<close>

lemma no_peer_frame:
  assumes "no_peer env s" "peerPublicKey s' = peerPublicKey s" "sharedSecret s' = sharedSecret s"
    "prefs s' (scopedKey env ''peerPublicKey'') = prefs s (scopedKey env ''peerPublicKey'')"
  shows "no_peer env s'"
  using assms by (simp add: no_peer_def absent_def PEER_PUBLIC_KEY_def)

lemma loadKeysIfNeeded_no_peer:
  assumes "slots_distinct env"
  shows "ensures (no_peer env) (loadKeysIfNeeded env) (no_peer env) (no_peer env)"
proof (rule loadKeysIfNeeded_inv)
  from assms have d: "scopedKey env ''ownPrivateKey'' \<noteq> scopedKey env ''peerPublicKey''"
      "scopedKey env ''ownPublicKey'' \<noteq> scopedKey env ''peerPublicKey''"
    by (auto simp: slots_distinct_def OWN_PRIVATE_KEY_def OWN_PUBLIC_KEY_def PEER_PUBLIC_KEY_def)
  show "ensures (no_peer env) (loadOwnPrivateKeyIfNull env) (no_peer env) (no_peer env)"
    by (rule ensuresI, drule loadOwnPrivateKeyIfNull_cases) (auto elim!: no_peer_frame)
  show "ensures (no_peer env) (loadOwnPublicKeyIfNull env) (no_peer env) (no_peer env)"
    by (rule ensuresI, drule loadOwnPublicKeyIfNull_cases) (auto elim!: no_peer_frame)
  show "ensures (no_peer env) (generateKeyPairIfIncomplete env) (no_peer env) (no_peer env)"
    using d
    by - (rule ensuresI, drule generateKeyPairIfIncomplete_cases,
          auto dest!: generateKeyPair_cases elim!: no_peer_frame)
  show "ensures (no_peer env) (loadPeerPublicKeyIfNull env) (no_peer env) (no_peer env)"
    by (rule ensuresI, drule loadPeerPublicKeyIfNull_cases)
       (auto simp: no_peer_def absent_def stored_def split: option.splits)
  show "ensures (no_peer env) (deriveSharedSecretIfNull env) (no_peer env) (no_peer env)"
    by (rule ensuresI, drule deriveSharedSecretIfNull_cases) (auto simp: no_peer_def)
qed

lemma clear_no_peer:
  "no_peer env s \<Longrightarrow> no_peer env (snd (clear env s))"
  by (auto simp: no_peer_def absent_def clear_def removeItem_def Preferences_remove_def Let_def)

lemma call_no_peer:
  assumes "slots_distinct env" "no_peer env s" "\<forall>k. c \<noteq> SetPeerPublicKey k"
  shows "no_peer env (snd (call env c s))"
proof (cases c)
  case GetOwnPublicKey
  obtain r s' where run: "getOwnPublicKey env s = (r, s')"
    by (cases "getOwnPublicKey env s")
  from getOwnPublicKey_unfold[OF run] obtain r1 where "loadKeysIfNeeded env s = (r1, s')"
    by blast
  from ensuresD_any[OF loadKeysIfNeeded_no_peer[OF assms(1)] assms(2) this] run GetOwnPublicKey
  show ?thesis
    by (simp add: as_key_def)
next
  case GetSharedSecret
  obtain r s' where run: "getSharedSecret env s = (r, s')"
    by (cases "getSharedSecret env s")
  from getSharedSecret_unfold[OF run] obtain r1 where "loadKeysIfNeeded env s = (r1, s')"
    by blast
  from ensuresD_any[OF loadKeysIfNeeded_no_peer[OF assms(1)] assms(2) this] run GetSharedSecret
  show ?thesis
    by (simp add: as_key_def)
next
  case (SetPeerPublicKey k)
  with assms(3) show ?thesis by simp
next
  case Clear
  with clear_no_peer[OF assms(2)] show ?thesis
    by (simp add: as_void_def)
qed

lemma after_calls_no_peer:
  assumes "slots_distinct env"
  shows "no_peer env s \<Longrightarrow> \<forall>c \<in> set cs. \<forall>k. c \<noteq> SetPeerPublicKey k \<Longrightarrow>
         no_peer env (after_calls env cs s)"
proof (induction cs arbitrary: s)
  case Nil
  then show ?case by simp
next
  case (Cons c cs)
  from Cons.prems(2) have c: "\<forall>k. c \<noteq> SetPeerPublicKey k"
    and cs: "\<forall>c \<in> set cs. \<forall>k. c \<noteq> SetPeerPublicKey k"
    by simp_all
  from call_no_peer[OF assms Cons.prems(1) c] have "no_peer env (snd (call env c s))" .
  from Cons.IH[OF this cs] show ?case by simp
qed

lemma clear_Inr:
  assumes "clear env s = (Inr (), s1)"
  shows "ownPrivateKey s1 = None \<and> ownPublicKey s1 = None \<and> peerPublicKey s1 = None \<and>
         sharedSecret s1 = None \<and> keygen_calls s1 = keygen_calls s \<and>
         prefs s1 (scopedKey env (storageKey OWN_PUBLIC_KEY)) = None \<and>
         prefs s1 (scopedKey env (storageKey OWN_PRIVATE_KEY)) = None \<and>
         prefs s1 (scopedKey env (storageKey PEER_PUBLIC_KEY)) = None"
  using assms
  by (auto simp: clear_def removeItem_def Preferences_remove_def Let_def split: if_splits)

text \<open>
  Claim C8. After a \<open>clear\<close> that completes, \<open>getOwnPublicKey\<close> returns the public
  key of a pair that the cipher generates at that moment; when the cipher never
  hands out the same public key twice, it differs from every public key generated
  before. And after any calls other than \<open>setPeerPublicKey\<close>, \<open>getSharedSecret\<close>
  returns \<open>null\<close>. The scoped storage keys of the three items are taken to be
  distinct.
\<close>

theorem clear_then_fresh_identity:
  assumes "slots_distinct env" and "generates_fresh_keys env" and "clear env s = (Inr (), s1)"
  shows "(\<forall>v s2. getOwnPublicKey env s1 = (Inr v, s2) \<longrightarrow>
            (\<exists>p q. cipher_generateKeyPair env (keygen_calls s) = Some (p, q) \<and> v = Some q \<and>
               (\<forall>i p' q'. i < keygen_calls s \<longrightarrow> cipher_generateKeyPair env i = Some (p', q') \<longrightarrow>
                  q' \<noteq> q))) \<and>
         (\<forall>cs v s2. (\<forall>c \<in> set cs. \<forall>k. c \<noteq> SetPeerPublicKey k) \<longrightarrow>
            getSharedSecret env (after_calls env cs s1) = (Inr v, s2) \<longrightarrow> v = None)"
proof (intro conjI allI impI)
  note cleared = clear_Inr[OF assms(3)]
  fix v s2 assume get: "getOwnPublicKey env s1 = (Inr v, s2)"
  from cleared have needs: "needs_keypair env s1"
    by (simp add: needs_keypair_def absent_def)
  from getOwnPublicKey_result[OF get]
  have load: "loadKeysIfNeeded env s1 = (Inr (), s2)" and v: "v = ownPublicKey s2"
    by simp_all
  from regenerate[OF needs load] obtain p q where "regenerated env s1 s2 p q"
    by blast
  with cleared v have gen: "cipher_generateKeyPair env (keygen_calls s) = Some (p, q)"
    and q: "v = Some q"
    by (simp_all add: regenerated_def)
  have "q' \<noteq> q" if "i < keygen_calls s" "cipher_generateKeyPair env i = Some (p', q')" for i p' q'
  proof -
    from that(1) have "i \<noteq> keygen_calls s" by simp
    with assms(2) that(2) gen show ?thesis
      unfolding generates_fresh_keys_def by blast
  qed
  with gen q show "\<exists>p q. cipher_generateKeyPair env (keygen_calls s) = Some (p, q) \<and> v = Some q \<and>
      (\<forall>i p' q'. i < keygen_calls s \<longrightarrow> cipher_generateKeyPair env i = Some (p', q') \<longrightarrow> q' \<noteq> q)"
    by blast
next
  note cleared = clear_Inr[OF assms(3)]
  fix cs v s2
  assume cs: "\<forall>c \<in> set cs. \<forall>k. c \<noteq> SetPeerPublicKey k"
    and get: "getSharedSecret env (after_calls env cs s1) = (Inr v, s2)"
  from cleared have "no_peer env s1"
    by (simp add: no_peer_def absent_def)
  from after_calls_no_peer[OF assms(1) this cs] have before: "no_peer env (after_calls env cs s1)" .
  from getSharedSecret_result[OF get]
  have load: "loadKeysIfNeeded env (after_calls env cs s1) = (Inr (), s2)" and v: "v = sharedSecret s2"
    by simp_all
  from ensuresD_Inr[OF loadKeysIfNeeded_no_peer[OF assms(1)] before load] v
  show "v = None"
    by (simp add: no_peer_def)
qed

theorem clear_then_fresh_identity_witness:
  "fst (clear demo_env (after_calls demo_env [SetPeerPublicKey 3] (new_manager Map.empty))) = Inr () \<and>
   fst (getOwnPublicKey demo_env (after_calls demo_env [SetPeerPublicKey 3] (new_manager Map.empty)))
     = Inr (Some 1) \<and>
   fst (getOwnPublicKey demo_env
         (snd (clear demo_env (after_calls demo_env [SetPeerPublicKey 3] (new_manager Map.empty)))))
     = Inr (Some 3) \<and>
   fst (getSharedSecret demo_env (after_calls demo_env [GetOwnPublicKey]
         (snd (clear demo_env (after_calls demo_env [SetPeerPublicKey 3] (new_manager Map.empty))))))
     = Inr None"
proof -
  define s where "s = after_calls demo_env [SetPeerPublicKey 3] (new_manager Map.empty)"
  define s1 where "s1 = snd (clear demo_env s)"
  define s2 where "s2 = after_calls demo_env [GetOwnPublicKey] s1"
  have distinct: "slots_distinct demo_env"
    by (simp add: slots_distinct_def demo_env_def OWN_PRIVATE_KEY_def OWN_PUBLIC_KEY_def
          PEER_PUBLIC_KEY_def)
  have fresh: "generates_fresh_keys demo_env"
    by (simp add: generates_fresh_keys_def demo_env_def)
  have before: "fst (getOwnPublicKey demo_env s) = Inr (Some 1)"
    unfolding s_def by code_simp
  have ok: "fst (clear demo_env s) = Inr ()"
    unfolding s_def by code_simp
  then have run: "clear demo_env s = (Inr (), s1)"
    by (simp add: s1_def prod_eq_iff)
  note after = clear_then_fresh_identity[OF distinct fresh run]
  have calls: "keygen_calls s = 1"
    unfolding s_def by code_simp
  have "\<not> isl (fst (getOwnPublicKey demo_env s1))"
    unfolding s1_def s_def by code_simp
  then obtain v where fv: "fst (getOwnPublicKey demo_env s1) = Inr v"
    by (cases "fst (getOwnPublicKey demo_env s1)") auto
  then have get: "getOwnPublicKey demo_env s1 = (Inr v, snd (getOwnPublicKey demo_env s1))"
    by (simp add: prod_eq_iff)
  from after get obtain p q
    where "cipher_generateKeyPair demo_env (keygen_calls s) = Some (p, q)" "v = Some q"
    by blast
  with calls have "v = Some 3"
    by (auto simp: demo_env_def)
  with fv have new: "fst (getOwnPublicKey demo_env s1) = Inr (Some 3)"
    by simp
  have "\<not> isl (fst (getSharedSecret demo_env s2))"
    unfolding s2_def s1_def s_def by code_simp
  then obtain w where "fst (getSharedSecret demo_env s2) = Inr w"
    by (cases "fst (getSharedSecret demo_env s2)") auto
  then have "getSharedSecret demo_env (after_calls demo_env [GetOwnPublicKey] s1)
      = (Inr w, snd (getSharedSecret demo_env s2))"
    by (simp add: prod_eq_iff s2_def)
  moreover have "\<forall>c \<in> set [GetOwnPublicKey :: nat op]. \<forall>k. c \<noteq> SetPeerPublicKey k"
    by simp
  ultimately have "w = None"
    using after by blast
  with \<open>fst (getSharedSecret demo_env s2) = Inr w\<close>
  have none: "fst (getSharedSecret demo_env s2) = Inr None"
    by simp
  from ok before new none show ?thesis
    unfolding s2_def s1_def s_def by simp
qed

subsection \<open>clear\<close>

text \<open>
  Claim C9. \<open>clear\<close> issues the three removals (own public, own private, peer public,
  in that order; the log is newest first) on every call, whatever the outcome of any
  of them: a removal that does not fail takes effect even when an earlier one failed,
  and \<open>clear\<close> completes exactly when none of the three failed.
\<close>

theorem clear_attempts_every_removal:
  "pref_calls (snd (clear env s)) =
     [PrefRemove (scopedKey env (storageKey PEER_PUBLIC_KEY)),
      PrefRemove (scopedKey env (storageKey OWN_PRIVATE_KEY)),
      PrefRemove (scopedKey env (storageKey OWN_PUBLIC_KEY))] @ pref_calls s \<and>
   (\<not> prefs_fault env (length (pref_calls s)) \<longrightarrow>
      prefs (snd (clear env s)) (scopedKey env (storageKey OWN_PUBLIC_KEY)) = None) \<and>
   (\<not> prefs_fault env (Suc (length (pref_calls s))) \<longrightarrow>
      prefs (snd (clear env s)) (scopedKey env (storageKey OWN_PRIVATE_KEY)) = None) \<and>
   (\<not> prefs_fault env (Suc (Suc (length (pref_calls s)))) \<longrightarrow>
      prefs (snd (clear env s)) (scopedKey env (storageKey PEER_PUBLIC_KEY)) = None) \<and>
   (fst (clear env s) = Inr () \<longleftrightarrow>
      \<not> prefs_fault env (length (pref_calls s)) \<and>
      \<not> prefs_fault env (Suc (length (pref_calls s))) \<and>
      \<not> prefs_fault env (Suc (Suc (length (pref_calls s)))))"
  by (simp add: clear_def removeItem_def Preferences_remove_def Let_def)

theorem clear_attempts_every_removal_witness:
  "fst (clear faulty_env (new_manager full_store)) = Inl StorageUnavailable \<and>
   pref_calls (snd (clear faulty_env (new_manager full_store))) =
     [PrefRemove ''w:peerPublicKey'', PrefRemove ''w:ownPrivateKey'', PrefRemove ''w:ownPublicKey''] \<and>
   prefs (snd (clear faulty_env (new_manager full_store))) ''w:ownPublicKey'' = Some ''fffff'' \<and>
   prefs (snd (clear faulty_env (new_manager full_store))) ''w:ownPrivateKey'' = None \<and>
   prefs (snd (clear faulty_env (new_manager full_store))) ''w:peerPublicKey'' = None"
proof -
  define s where "s = (new_manager full_store :: nat KeyManager)"
  have len: "length (pref_calls s) = 0"
    by (simp add: s_def new_manager_def)
  have faults: "prefs_fault faulty_env 0" "\<not> prefs_fault faulty_env (Suc 0)"
      "\<not> prefs_fault faulty_env (Suc (Suc 0))"
    by (simp_all add: faulty_env_def)
  have keys: "scopedKey faulty_env (storageKey PEER_PUBLIC_KEY) = ''w:peerPublicKey''"
      "scopedKey faulty_env (storageKey OWN_PRIVATE_KEY) = ''w:ownPrivateKey''"
      "scopedKey faulty_env (storageKey OWN_PUBLIC_KEY) = ''w:ownPublicKey''"
    by (simp_all add: faulty_env_def demo_env_def PEER_PUBLIC_KEY_def OWN_PRIVATE_KEY_def
          OWN_PUBLIC_KEY_def)
  have calls: "pref_calls s = []"
    by (simp add: s_def new_manager_def)
  have kept: "prefs (snd (clear faulty_env s)) ''w:ownPublicKey'' = Some ''fffff''"
    unfolding s_def by code_simp
  have failed: "fst (clear faulty_env s) = Inl StorageUnavailable"
    unfolding s_def by code_simp
  from clear_attempts_every_removal[of faulty_env s] len faults keys calls kept failed
  show ?thesis
    unfolding s_def by simp
qed

end
